theory Spec2Isabelle
  imports Complex_Main
begin

section \<open>BlockCraft: the ledger engine of Blockcraft.py\<close>

text \<open>
  The engine consists of the classes \<^verbatim>\<open>Block\<close> and \<^verbatim>\<open>Blockchain\<close>. Python objects are
  records, attribute assignment is record update, and a method that mutates its object
  returns the updated record. Python integers are \<open>int\<close>.
\<close>

subsection \<open>Data\<close>

text \<open>
  A transaction is the dictionary with the keys \<^verbatim>\<open>from\<close>, \<^verbatim>\<open>to\<close>, \<^verbatim>\<open>amount\<close>,
  \<^verbatim>\<open>timestamp\<close> and \<^verbatim>\<open>type\<close> that \<^verbatim>\<open>mine_pending_transactions\<close> and the shell build.
  Amounts are exact integers here (the mining reward is the integer 100).
\<close>

record transaction =
  tx_from :: string
  tx_to :: string
  amount :: int
  tx_timestamp :: string
  tx_type :: string

text \<open>The attributes of \<^verbatim>\<open>Block\<close>. The block timestamp is the reading of \<^verbatim>\<open>time.time()\<close>.\<close>

record block =
  index :: int
  transactions :: "transaction list"
  timestamp :: real
  previous_hash :: string
  nonce :: int
  hash :: string

text \<open>The attributes of \<^verbatim>\<open>Blockchain\<close>.\<close>

record blockchain =
  chain :: "block list"
  difficulty :: int
  pending_transactions :: "transaction list"
  mining_reward :: int

datatype py_error = IndexError

subsection \<open>Hashing\<close>

text \<open>
  \<^verbatim>\<open>calculate_hash\<close> serialises the five attributes index, transactions, timestamp,
  previous_hash and nonce with \<^verbatim>\<open>json.dumps(..., sort_keys=True)\<close> and returns the SHA-256
  hex digest of the text. Both are library code; their composition is the parameter \<open>H\<close>
  of the model, a function of exactly these five values. The stored \<^verbatim>\<open>hash\<close> attribute is
  not an input of the digest.
\<close>

type_synonym hasher = "int \<Rightarrow> transaction list \<Rightarrow> real \<Rightarrow> string \<Rightarrow> int \<Rightarrow> string"

definition calculate_hash :: "hasher \<Rightarrow> block \<Rightarrow> string" where
  "calculate_hash H b =
     H (index b) (transactions b) (timestamp b) (previous_hash b) (nonce b)"

text \<open>\<^verbatim>\<open>Block.__init__\<close>: stores the arguments and then the digest computed from them.\<close>

definition Block :: "hasher \<Rightarrow> int \<Rightarrow> transaction list \<Rightarrow> real \<Rightarrow> string \<Rightarrow> int \<Rightarrow> block" where
  "Block H i txs ts prev n =
     (let self = \<lparr>index = i, transactions = txs, timestamp = ts, previous_hash = prev,
                  nonce = n, hash = []\<rparr>
      in self\<lparr>hash := calculate_hash H self\<rparr>)"

subsection \<open>Proof of work\<close>

text \<open>
  Python's \<^verbatim>\<open>s[:d]\<close> and \<^verbatim>\<open>"0" * d\<close> for an arbitrary integer \<open>d\<close>: a negative stop counts
  from the end of the string, and a string repeated a non-positive number of times is empty.
\<close>

definition py_prefix :: "string \<Rightarrow> int \<Rightarrow> string" where
  "py_prefix s d = (if 0 \<le> d then take (nat d) s else take (length s - nat (- d)) s)"

definition py_repeat :: "char \<Rightarrow> int \<Rightarrow> string" where
  "py_repeat c d = replicate (nat d) c"

text \<open>The negation of the loop condition \<^verbatim>\<open>self.hash[:difficulty] != target\<close>.\<close>

definition meets_target :: "int \<Rightarrow> string \<Rightarrow> bool" where
  "meets_target d h \<longleftrightarrow> py_prefix h d = py_repeat CHR ''0'' d"

text \<open>The loop body: \<^verbatim>\<open>self.nonce += 1; self.hash = self.calculate_hash()\<close>.\<close>

definition try_next_nonce :: "hasher \<Rightarrow> block \<Rightarrow> block" where
  "try_next_nonce H b =
     (let b1 = b\<lparr>nonce := nonce b + 1\<rparr> in b1\<lparr>hash := calculate_hash H b1\<rparr>)"

text \<open>
  \<^verbatim>\<open>Block.mine_block\<close>. The search has no bound, so the model is a partial function:
  \<open>None\<close> stands for a loop that never ends, \<open>Some b'\<close> for the block as the loop leaves it.
\<close>

partial_function (option) mine_block :: "hasher \<Rightarrow> block \<Rightarrow> int \<Rightarrow> block option" where
  "mine_block H b d =
     (if meets_target d (hash b) then Some b else mine_block H (try_next_nonce H b) d)"

subsection \<open>The ledger\<close>

text \<open>\<^verbatim>\<open>create_genesis_block\<close> and \<^verbatim>\<open>Blockchain.__init__\<close>; \<open>t0\<close> is the clock reading.\<close>

definition create_genesis_block :: "hasher \<Rightarrow> real \<Rightarrow> block" where
  "create_genesis_block H t0 = Block H 0 [] t0 ''0'' 0"

definition Blockchain :: "hasher \<Rightarrow> real \<Rightarrow> blockchain" where
  "Blockchain H t0 =
     \<lparr>chain = [create_genesis_block H t0], difficulty = 2,
      pending_transactions = [], mining_reward = 100\<rparr>"

text \<open>\<^verbatim>\<open>get_latest_block\<close>: \<^verbatim>\<open>self.chain[-1]\<close> raises \<^verbatim>\<open>IndexError\<close> on an empty list.\<close>

definition get_latest_block :: "blockchain \<Rightarrow> py_error + block" where
  "get_latest_block L = (if chain L = [] then Inl IndexError else Inr (last (chain L)))"

definition add_transaction :: "blockchain \<Rightarrow> transaction \<Rightarrow> blockchain" where
  "add_transaction L tx = L\<lparr>pending_transactions := pending_transactions L @ [tx]\<rparr>"

text \<open>The reward dictionary built by \<^verbatim>\<open>mine_pending_transactions\<close>; \<open>now\<close> is the formatted
  clock reading.\<close>

definition reward_transaction :: "blockchain \<Rightarrow> string \<Rightarrow> string \<Rightarrow> transaction" where
  "reward_transaction L mining_reward_address now =
     \<lparr>tx_from = ''SYSTEM'', tx_to = mining_reward_address, amount = mining_reward L,
      tx_timestamp = now, tx_type = ''mining_reward''\<rparr>"

text \<open>
  \<^verbatim>\<open>mine_pending_transactions\<close>. The result is \<open>None\<close> when the search never ends,
  \<open>Some (Inl IndexError)\<close> when the chain is empty (raised while the arguments of \<^verbatim>\<open>Block\<close>
  are evaluated, before anything is changed), and otherwise the returned block with the
  updated ledger.
\<close>

definition mine_pending_transactions ::
  "hasher \<Rightarrow> string \<Rightarrow> real \<Rightarrow> blockchain \<Rightarrow> string \<Rightarrow> (py_error + block \<times> blockchain) option" where
  "mine_pending_transactions H now t L mining_reward_address =
     (let transactions_to_mine =
            pending_transactions L @ [reward_transaction L mining_reward_address now]
      in case get_latest_block L of
           Inl e \<Rightarrow> Some (Inl e)
         | Inr latest \<Rightarrow>
             (case mine_block H
                     (Block H (int (length (chain L))) transactions_to_mine t (hash latest) 0)
                     (difficulty L) of
                None \<Rightarrow> None
              | Some blk \<Rightarrow>
                  Some (Inr (blk, L\<lparr>chain := chain L @ [blk], pending_transactions := []\<rparr>))))"




text \<open>\<^verbatim>\<open>is_chain_valid\<close>: the loop \<^verbatim>\<open>for i in range(1, len(self.chain))\<close> from index \<open>i\<close> on.\<close>

function valid_from :: "hasher \<Rightarrow> block list \<Rightarrow> nat \<Rightarrow> bool" where
  "valid_from H c i =
     (if i < length c then
        (let current_block = c ! i; previous_block = c ! (i - 1) in
         if hash current_block \<noteq> calculate_hash H current_block then False
         else if previous_hash current_block \<noteq> hash previous_block then False
         else valid_from H c (i + 1))
      else True)"
  by pat_completeness auto
termination
  by (relation "measure (\<lambda>(H, c, i). length c - i)") auto

definition is_chain_valid :: "hasher \<Rightarrow> blockchain \<Rightarrow> bool" where
  "is_chain_valid H L = valid_from H (chain L) 1"

subsection \<open>Reachable ledgers\<close>

text \<open>
  The ledgers that a program obtains from \<^verbatim>\<open>Blockchain()\<close> by calls of \<^verbatim>\<open>add_transaction\<close>
  and of \<^verbatim>\<open>mine_pending_transactions\<close> that return. \<open>step\<close> is one such call.
\<close>

inductive step :: "hasher \<Rightarrow> blockchain \<Rightarrow> blockchain \<Rightarrow> bool" for H where
  step_add: "step H L (add_transaction L tx)"
| step_mine: "mine_pending_transactions H now t L addr = Some (Inr (blk, L')) \<Longrightarrow> step H L L'"

inductive reachable :: "hasher \<Rightarrow> blockchain \<Rightarrow> bool" for H where
  reachable_fresh: "reachable H (Blockchain H t0)"
| reachable_step: "reachable H L \<Longrightarrow> step H L L' \<Longrightarrow> reachable H L'"

subsection \<open>Sums over the sealed transactions\<close>




subsection \<open>A hasher for concrete runs\<close>

text \<open>
  Every property below is proved for an arbitrary hasher. To run the model on concrete
  ledgers, \<open>sample_hasher\<close> is a small digest function of the same type: its digest starts
  with \<open>3 - nonce\<close> characters \<open>f\<close>, then four zeros, then one \<open>a\<close> per transaction.
\<close>

definition sample_hasher :: hasher where
  "sample_hasher i txs ts prev n =
     replicate (nat (3 - n)) CHR ''f'' @ ''0000'' @ replicate (length txs) CHR ''a''"

section \<open>Lemmas\<close>

subsection \<open>The search loop\<close>

lemma mine_block_done: "meets_target d (hash b) \<Longrightarrow> mine_block H b d = Some b"
  by (subst mine_block.simps) simp

lemma mine_block_next:
  "\<not> meets_target d (hash b) \<Longrightarrow> mine_block H b d = mine_block H (try_next_nonce H b) d"
  by (subst mine_block.simps) simp

lemma meets_target_nonneg:
  "0 \<le> d \<Longrightarrow> meets_target d h \<longleftrightarrow> take (nat d) h = replicate (nat d) CHR ''0''"
  by (simp add: meets_target_def py_prefix_def py_repeat_def)

lemma try_next_nonce_fields:
  "index (try_next_nonce H b) = index b"
  "transactions (try_next_nonce H b) = transactions b"
  "timestamp (try_next_nonce H b) = timestamp b"
  "previous_hash (try_next_nonce H b) = previous_hash b"
  "nonce (try_next_nonce H b) = nonce b + 1"
  "hash (try_next_nonce H b) = calculate_hash H (try_next_nonce H b)"
  by (simp_all add: try_next_nonce_def calculate_hash_def Let_def)

lemma Block_fields:
  "index (Block H i txs ts prev n) = i"
  "transactions (Block H i txs ts prev n) = txs"
  "timestamp (Block H i txs ts prev n) = ts"
  "previous_hash (Block H i txs ts prev n) = prev"
  "nonce (Block H i txs ts prev n) = n"
  "hash (Block H i txs ts prev n) = H i txs ts prev n"
  "calculate_hash H (Block H i txs ts prev n) = H i txs ts prev n"
  by (simp_all add: Block_def calculate_hash_def Let_def)

text \<open>What holds of the block whenever the loop is left.\<close>

lemma mine_block_returns:
  assumes "mine_block H b d = Some b'"
  shows "meets_target d (hash b') \<and> index b' = index b \<and> transactions b' = transactions b \<and>
         timestamp b' = timestamp b \<and> previous_hash b' = previous_hash b \<and>
         nonce b \<le> nonce b' \<and> (hash b = calculate_hash H b \<longrightarrow> hash b' = calculate_hash H b')"
proof -
  let ?Q = "\<lambda>H b d b'. meets_target d (hash b') \<and> index b' = index b \<and>
      transactions b' = transactions b \<and> timestamp b' = timestamp b \<and>
      previous_hash b' = previous_hash b \<and> nonce b \<le> nonce b' \<and>
      (hash b = calculate_hash H b \<longrightarrow> hash b' = calculate_hash H b')"
  have "?Q H b d b'"
  proof (rule mine_block.raw_induct [where P = ?Q])
    fix f :: "hasher \<Rightarrow> block \<Rightarrow> int \<Rightarrow> block option" and H b d b'
    assume IH: "\<And>H b d y. f H b d = Some y \<Longrightarrow> ?Q H b d y"
      and run: "(if meets_target d (hash b) then Some b else f H (try_next_nonce H b) d) = Some b'"
    show "?Q H b d b'"
    proof (cases "meets_target d (hash b)")
      case True
      with run show ?thesis by simp
    next
      case False
      with run have "f H (try_next_nonce H b) d = Some b'" by simp
      then have "?Q H (try_next_nonce H b) d b'" by (rule IH)
      then show ?thesis using try_next_nonce_fields [of H b] by auto
    qed
  next
    show "mine_block H b d = Some b'" by (rule assms)
  qed
  then show ?thesis .
qed

text \<open>
  The loop started on a block with a current digest stops at the first nonce, counted from
  the block's own, whose digest meets the target.
\<close>

lemma mine_block_first:
  assumes "hash b = calculate_hash H b"
    and "meets_target d (calculate_hash H (b\<lparr>nonce := nonce b + int k\<rparr>))"
    and "\<forall>j<k. \<not> meets_target d (calculate_hash H (b\<lparr>nonce := nonce b + int j\<rparr>))"
  shows "mine_block H b d =
           Some (b\<lparr>nonce := nonce b + int k,
                   hash := calculate_hash H (b\<lparr>nonce := nonce b + int k\<rparr>)\<rparr>)"
  using assms
proof (induction k arbitrary: b)
  case 0
  then have "meets_target d (hash b)" by simp
  then have "mine_block H b d = Some b" by (rule mine_block_done)
  with "0.prems"(1) show ?case by simp
next
  case (Suc k)
  let ?c = "try_next_nonce H b"
  have shift: "?c\<lparr>nonce := nonce ?c + int j\<rparr> = (b\<lparr>nonce := nonce b + int (Suc j)\<rparr>)
                 \<lparr>hash := hash ?c\<rparr>" for j
    by (simp add: try_next_nonce_def Let_def add.assoc)
  have digest: "calculate_hash H (?c\<lparr>nonce := nonce ?c + int j\<rparr>) =
                calculate_hash H (b\<lparr>nonce := nonce b + int (Suc j)\<rparr>)" for j
    by (simp add: shift calculate_hash_def)
  from Suc.prems(3) have "\<not> meets_target d (calculate_hash H (b\<lparr>nonce := nonce b + int 0\<rparr>))"
    by blast
  with Suc.prems(1) have "\<not> meets_target d (hash b)" by simp
  then have step: "mine_block H b d = mine_block H ?c d" by (rule mine_block_next)
  have "mine_block H ?c d =
          Some (?c\<lparr>nonce := nonce ?c + int k,
                   hash := calculate_hash H (?c\<lparr>nonce := nonce ?c + int k\<rparr>)\<rparr>)"
  proof (rule Suc.IH)
    show "hash ?c = calculate_hash H ?c" by (rule try_next_nonce_fields)
    show "meets_target d (calculate_hash H (?c\<lparr>nonce := nonce ?c + int k\<rparr>))"
      using Suc.prems(2) by (simp only: digest)
    show "\<forall>j<k. \<not> meets_target d (calculate_hash H (?c\<lparr>nonce := nonce ?c + int j\<rparr>))"
      using Suc.prems(3) by (simp only: digest) auto
  qed
  also have "?c\<lparr>nonce := nonce ?c + int k,
                hash := calculate_hash H (?c\<lparr>nonce := nonce ?c + int k\<rparr>)\<rparr> =
             b\<lparr>nonce := nonce b + int (Suc k),
               hash := calculate_hash H (b\<lparr>nonce := nonce b + int (Suc k)\<rparr>)\<rparr>"
    by (simp add: digest) (simp add: try_next_nonce_def Let_def add.assoc)
  finally show ?case using step by simp
qed

text \<open>If some nonce from the block's own on meets the target, the loop ends at the least one.\<close>

lemma mine_block_least:
  assumes fresh: "hash b = calculate_hash H b"
    and le: "nonce b \<le> n"
    and ok: "meets_target d (calculate_hash H (b\<lparr>nonce := n\<rparr>))"
  shows "\<exists>m. nonce b \<le> m \<and> m \<le> n \<and>
           mine_block H b d = Some (b\<lparr>nonce := m, hash := calculate_hash H (b\<lparr>nonce := m\<rparr>)\<rparr>) \<and>
           meets_target d (calculate_hash H (b\<lparr>nonce := m\<rparr>)) \<and>
           (\<forall>l. nonce b \<le> l \<and> l < m \<longrightarrow> \<not> meets_target d (calculate_hash H (b\<lparr>nonce := l\<rparr>)))"
proof -
  let ?P = "\<lambda>k. meets_target d (calculate_hash H (b\<lparr>nonce := nonce b + int k\<rparr>))"
  from le ok have "?P (nat (n - nonce b))" by simp
  then have ex: "\<exists>k. ?P k" ..
  define k where "k = (LEAST k. ?P k)"
  have Pk: "?P k" unfolding k_def using ex by (rule LeastI_ex)
  have least: "\<forall>j<k. \<not> ?P j" unfolding k_def using not_less_Least by blast
  have kn: "k \<le> nat (n - nonce b)" unfolding k_def using \<open>?P (nat (n - nonce b))\<close> by (rule Least_le)
  have run: "mine_block H b d =
      Some (b\<lparr>nonce := nonce b + int k, hash := calculate_hash H (b\<lparr>nonce := nonce b + int k\<rparr>)\<rparr>)"
    using fresh Pk least by (rule mine_block_first)
  have before: "\<not> meets_target d (calculate_hash H (b\<lparr>nonce := l\<rparr>))"
    if "nonce b \<le> l" "l < nonce b + int k" for l
  proof -
    from that have "nat (l - nonce b) < k" by linarith
    with least have "\<not> ?P (nat (l - nonce b))" by blast
    with that(1) show ?thesis by simp
  qed
  show ?thesis
  proof (intro exI [of _ "nonce b + int k"] conjI allI impI)
    show "nonce b + int k \<le> n" using kn le by linarith
  qed (use run Pk before in auto)
qed

lemma Block_with_nonce:
  "calculate_hash H ((Block H i txs ts prev n0)\<lparr>nonce := m\<rparr>) = H i txs ts prev m"
  by (simp add: Block_def calculate_hash_def Let_def)

lemma Block_mined:
  "(Block H i txs ts prev n0)\<lparr>nonce := m,
      hash := calculate_hash H ((Block H i txs ts prev n0)\<lparr>nonce := m\<rparr>)\<rparr> = Block H i txs ts prev m"
  by (simp add: Block_def calculate_hash_def Let_def)

text \<open>Rewrite rules that run the model on concrete blocks and ledgers.\<close>

lemmas run_simps =
  mine_block_done mine_block_next Block_def calculate_hash_def sample_hasher_def
  meets_target_def py_prefix_def py_repeat_def try_next_nonce_def eval_nat_numeral

subsection \<open>Balances\<close>




subsection \<open>Validation\<close>

declare valid_from.simps [simp del]

lemma valid_from_beyond: "\<not> i < length c \<Longrightarrow> valid_from H c i"
  by (subst valid_from.simps) simp

lemma valid_from_step:
  "i < length c \<Longrightarrow>
   valid_from H c i \<longleftrightarrow>
     hash (c ! i) = calculate_hash H (c ! i) \<and> previous_hash (c ! i) = hash (c ! (i - 1)) \<and>
     valid_from H c (i + 1)"
  by (subst valid_from.simps) (auto simp: Let_def)

lemma valid_from_iff:
  "valid_from H c i \<longleftrightarrow>
     (\<forall>j. i \<le> j \<and> j < length c \<longrightarrow>
        hash (c ! j) = calculate_hash H (c ! j) \<and> previous_hash (c ! j) = hash (c ! (j - 1)))"
proof (induction H c i rule: valid_from.induct)
  case (1 H c i)
  let ?P = "\<lambda>j. hash (c ! j) = calculate_hash H (c ! j) \<and> previous_hash (c ! j) = hash (c ! (j - 1))"
  show ?case
  proof (cases "i < length c")
    case False
    then show ?thesis using valid_from_beyond [of i c H] by auto
  next
    case True
    show ?thesis
    proof (cases "?P i")
      case False
      with True show ?thesis using valid_from_step [of i c H] by auto
    next
      case Pi: True
      with True "1.IH" have IH: "valid_from H c (i + 1) \<longleftrightarrow> (\<forall>j. i + 1 \<le> j \<and> j < length c \<longrightarrow> ?P j)"
        by simp
      have "(\<forall>j. i \<le> j \<and> j < length c \<longrightarrow> ?P j) \<longleftrightarrow> (\<forall>j. i + 1 \<le> j \<and> j < length c \<longrightarrow> ?P j)"
      proof
        assume "\<forall>j. i \<le> j \<and> j < length c \<longrightarrow> ?P j"
        then show "\<forall>j. i + 1 \<le> j \<and> j < length c \<longrightarrow> ?P j" by auto
      next
        assume r: "\<forall>j. i + 1 \<le> j \<and> j < length c \<longrightarrow> ?P j"
        show "\<forall>j. i \<le> j \<and> j < length c \<longrightarrow> ?P j"
        proof (intro allI impI)
          fix j assume j: "i \<le> j \<and> j < length c"
          show "?P j"
          proof (cases "j = i")
            case True
            with Pi show ?thesis by simp
          next
            case False
            with j have "i + 1 \<le> j \<and> j < length c" by linarith
            with r show ?thesis by blast
          qed
        qed
      qed
      with IH Pi True show ?thesis using valid_from_step [of i c H] by blast
    qed
  qed
qed

text \<open>What \<open>is_chain_valid\<close> decides: both checks, for the blocks from index 1 on.\<close>

lemma is_chain_valid_iff:
  "is_chain_valid H L \<longleftrightarrow>
     (\<forall>j. 1 \<le> j \<and> j < length (chain L) \<longrightarrow>
        hash (chain L ! j) = calculate_hash H (chain L ! j) \<and>
        previous_hash (chain L ! j) = hash (chain L ! (j - 1)))"
  by (simp only: is_chain_valid_def valid_from_iff)

subsection \<open>Mining the pending pool\<close>

lemma mine_pending_transactions_empty_chain:
  "chain L = [] \<Longrightarrow> mine_pending_transactions H now t L a = Some (Inl IndexError)"
  by (simp add: mine_pending_transactions_def get_latest_block_def)

lemma mine_pending_transactions_returns:
  assumes "mine_pending_transactions H now t L a = Some (Inr (blk, L'))"
  shows "chain L \<noteq> []"
    and "mine_block H
           (Block H (int (length (chain L)))
              (pending_transactions L @ [reward_transaction L a now]) t (hash (last (chain L))) 0)
           (difficulty L) = Some blk"
    and "L' = L\<lparr>chain := chain L @ [blk], pending_transactions := []\<rparr>"
  using assms
  by (auto simp: mine_pending_transactions_def get_latest_block_def Let_def
      split: if_splits option.splits)

lemma mine_pending_transactions_succeeds:
  assumes "chain L \<noteq> []" and "0 \<le> n"
    and "meets_target (difficulty L)
           (H (int (length (chain L))) (pending_transactions L @ [reward_transaction L a now]) t
              (hash (last (chain L))) n)"
  shows "\<exists>m. 0 \<le> m \<and> m \<le> n \<and>
           mine_pending_transactions H now t L a =
             Some (Inr (Block H (int (length (chain L)))
                          (pending_transactions L @ [reward_transaction L a now]) t
                          (hash (last (chain L))) m,
                        L\<lparr>chain := chain L @
                             [Block H (int (length (chain L)))
                                (pending_transactions L @ [reward_transaction L a now]) t
                                (hash (last (chain L))) m],
                          pending_transactions := []\<rparr>))"
proof -
  let ?txs = "pending_transactions L @ [reward_transaction L a now]"
  let ?b = "Block H (int (length (chain L))) ?txs t (hash (last (chain L))) 0"
  have "hash ?b = calculate_hash H ?b" by (simp add: Block_fields)
  moreover have "nonce ?b \<le> n" using assms(2) by (simp add: Block_fields)
  moreover have "meets_target (difficulty L) (calculate_hash H (?b\<lparr>nonce := n\<rparr>))"
    using assms(3) by (simp add: Block_with_nonce)
  ultimately obtain m where m: "nonce ?b \<le> m" "m \<le> n"
      "mine_block H ?b (difficulty L) =
         Some (?b\<lparr>nonce := m, hash := calculate_hash H (?b\<lparr>nonce := m\<rparr>)\<rparr>)"
    using mine_block_least [of ?b H n "difficulty L"] by blast
  from m(3) have run: "mine_block H ?b (difficulty L) =
      Some (Block H (int (length (chain L))) ?txs t (hash (last (chain L))) m)"
    by (simp only: Block_mined)
  have "0 \<le> m" using m(1) by (simp add: Block_fields)
  moreover have "mine_pending_transactions H now t L a =
      Some (Inr (Block H (int (length (chain L))) ?txs t (hash (last (chain L))) m,
                 L\<lparr>chain := chain L @ [Block H (int (length (chain L))) ?txs t (hash (last (chain L))) m],
                   pending_transactions := []\<rparr>))"
    using assms(1) run by (simp add: mine_pending_transactions_def get_latest_block_def Let_def)
  ultimately show ?thesis using m(2) by blast
qed

lemma mine_block_constructed:
  assumes "mine_block H (Block H i txs ts prev n0) d = Some b'"
  shows "index b' = i" and "transactions b' = txs" and "timestamp b' = ts"
    and "previous_hash b' = prev" and "n0 \<le> nonce b'"
    and "hash b' = calculate_hash H b'" and "meets_target d (hash b')"
proof -
  let ?b = "Block H i txs ts prev n0"
  have r: "meets_target d (hash b') \<and> index b' = index ?b \<and> transactions b' = transactions ?b \<and>
      timestamp b' = timestamp ?b \<and> previous_hash b' = previous_hash ?b \<and>
      nonce ?b \<le> nonce b' \<and> (hash ?b = calculate_hash H ?b \<longrightarrow> hash b' = calculate_hash H b')"
    using assms by (rule mine_block_returns)
  have f: "hash ?b = calculate_hash H ?b" by (simp add: Block_fields)
  from r show "meets_target d (hash b')" by blast
  from r f show "hash b' = calculate_hash H b'" by blast
  from r have "index b' = index ?b" by blast
  then show "index b' = i" by (simp add: Block_fields)
  from r have "transactions b' = transactions ?b" by blast
  then show "transactions b' = txs" by (simp add: Block_fields)
  from r have "timestamp b' = timestamp ?b" by blast
  then show "timestamp b' = ts" by (simp add: Block_fields)
  from r have "previous_hash b' = previous_hash ?b" by blast
  then show "previous_hash b' = prev" by (simp add: Block_fields)
  from r have "nonce ?b \<le> nonce b'" by blast
  then show "n0 \<le> nonce b'" by (simp add: Block_fields)
qed

lemma mine_block_constructed_eq:
  assumes "mine_block H (Block H i txs ts prev n0) d = Some b'"
  shows "b' = Block H i txs ts prev (nonce b')"
proof -
  note f = mine_block_constructed [OF assms]
  have "hash b' = H i txs ts prev (nonce b')"
    using f(1-4,6) by (simp add: calculate_hash_def)
  with f(1-4) show ?thesis
    by (cases b') (simp add: Block_def calculate_hash_def Let_def)
qed

lemma mine_pending_transactions_block:
  assumes "mine_pending_transactions H now t L a = Some (Inr (blk, L'))"
  shows "index blk = int (length (chain L))"
    and "transactions blk = pending_transactions L @ [reward_transaction L a now]"
    and "timestamp blk = t"
    and "previous_hash blk = hash (last (chain L))"
    and "0 \<le> nonce blk"
    and "hash blk = calculate_hash H blk"
    and "meets_target (difficulty L) (hash blk)"
proof -
  have "mine_block H
          (Block H (int (length (chain L)))
             (pending_transactions L @ [reward_transaction L a now]) t (hash (last (chain L))) 0)
          (difficulty L) = Some blk"
    using assms by (rule mine_pending_transactions_returns)
  then show "index blk = int (length (chain L))"
    and "transactions blk = pending_transactions L @ [reward_transaction L a now]"
    and "timestamp blk = t"
    and "previous_hash blk = hash (last (chain L))"
    and "0 \<le> nonce blk"
    and "hash blk = calculate_hash H blk"
    and "meets_target (difficulty L) (hash blk)"
    by (rule mine_block_constructed)+
qed

subsection \<open>Reachable ledgers\<close>

lemma step_cases:
  assumes "step H L L'"
  shows "(\<exists>tx. L' = add_transaction L tx) \<or>
         (\<exists>blk. chain L \<noteq> [] \<and> previous_hash blk = hash (last (chain L)) \<and>
                L' = L\<lparr>chain := chain L @ [blk], pending_transactions := []\<rparr>)"
  using assms
proof (cases rule: step.cases)
  case (step_add tx)
  then show ?thesis by blast
next
  case (step_mine now t addr blk)
  then show ?thesis
    using mine_pending_transactions_returns [of H now t L addr blk L']
      mine_pending_transactions_block(4) [of H now t L addr blk L']
    by blast
qed

lemma reachable_linked:
  assumes "reachable H L"
  shows "chain L \<noteq> [] \<and>
         (\<forall>i. 0 < i \<and> i < length (chain L) \<longrightarrow>
            previous_hash (chain L ! i) = hash (chain L ! (i - 1)))"
  using assms
proof (induction rule: reachable.induct)
  case (reachable_fresh t0)
  show ?case by (simp add: Blockchain_def)
next
  case (reachable_step L L')
  from step_cases [OF reachable_step.hyps(2)] show ?case
  proof (elim disjE exE conjE)
    fix tx assume "L' = add_transaction L tx"
    with reachable_step.IH show ?thesis by (simp add: add_transaction_def)
  next
    fix blk
    assume ne: "chain L \<noteq> []" and prev: "previous_hash blk = hash (last (chain L))"
      and L': "L' = L\<lparr>chain := chain L @ [blk], pending_transactions := []\<rparr>"
    have "previous_hash ((chain L @ [blk]) ! i) = hash ((chain L @ [blk]) ! (i - 1))"
      if i: "0 < i" "i < length (chain L @ [blk])" for i
    proof (cases "i < length (chain L)")
      case True
      then have "i - 1 < length (chain L)" by simp
      with True i reachable_step.IH show ?thesis by (simp add: nth_append)
    next
      case False
      with i have "i = length (chain L)" by simp
      with ne prev show ?thesis by (simp add: nth_append last_conv_nth)
    qed
    with L' show ?thesis by simp
  qed
qed

lemma step_grows:
  assumes "step H L L'"
  shows "length (chain L) \<le> length (chain L') \<and> take (length (chain L)) (chain L') = chain L"
  using step_cases [OF assms] by (auto simp: add_transaction_def)

section \<open>Properties\<close>

text \<open>
  C7. With difficulty 0 the loop condition of \<open>mine_block\<close> is false at its first
  evaluation, for every block and every hasher: the search returns at once with the block
  as it was, so the nonce keeps its value (0 for a new block) and is not incremented.
\<close>

theorem mine_block_difficulty_zero: "mine_block H b 0 = Some b"
  by (subst mine_block.simps) (simp add: meets_target_def py_prefix_def py_repeat_def)

text \<open>
  C1. For every difficulty \<open>d \<ge> 0\<close> and every block as \<open>Block\<close> constructs it (any index,
  transactions, timestamp, previous hash and initial nonce \<open>n0\<close>): when \<open>mine_block\<close>
  returns, the first \<open>d\<close> characters of the stored digest are all \<open>0\<close>, and the stored
  digest is the hasher's output over the block's index, transactions, timestamp and previous
  hash with the final nonce. The search changes nothing but the nonce and the digest: the
  block it leaves is the block that \<open>Block\<close> constructs from the same arguments with the
  final nonce, which is not below \<open>n0\<close>.
\<close>

theorem mine_block_seals:
  assumes "mine_block H (Block H i txs ts prev n0) d = Some b'" and "0 \<le> d"
  shows "take (nat d) (hash b') = replicate (nat d) CHR ''0'' \<and>
         hash b' = calculate_hash H b' \<and>
         hash b' = H i txs ts prev (nonce b') \<and>
         n0 \<le> nonce b' \<and>
         b' = Block H i txs ts prev (nonce b')"
proof -
  note f = mine_block_constructed [OF assms(1)]
  have "take (nat d) (hash b') = replicate (nat d) CHR ''0''"
    using f(7) assms(2) meets_target_nonneg [of d "hash b'"] by blast
  moreover have "hash b' = H i txs ts prev (nonce b')"
    using f(1-4,6) by (simp add: calculate_hash_def)
  moreover note f(5) f(6) mine_block_constructed_eq [OF assms(1)]
  ultimately show ?thesis by blast
qed

theorem mine_block_seals_witness:
  "mine_block sample_hasher
     (Block sample_hasher 1
        [\<lparr>tx_from = ''Alice'', tx_to = ''Bob'', amount = 50,
        tx_timestamp = ''2024-01-01 09:00:00'', tx_type = ''transfer''\<rparr>] 0 ''0'' 0) 2 =
     Some \<lparr>index = 1,
          transactions =
            [\<lparr>tx_from = ''Alice'', tx_to = ''Bob'', amount = 50,
             tx_timestamp = ''2024-01-01 09:00:00'', tx_type = ''transfer''\<rparr>],
          timestamp = 0, previous_hash = ''0'', nonce = 3, hash = ''0000a''\<rparr> \<and>
   (0::int) \<le> 2 \<and>
   take (nat 2) (hash \<lparr>index = 1,
                      transactions =
                        [\<lparr>tx_from = ''Alice'', tx_to = ''Bob'', amount = 50,
                         tx_timestamp = ''2024-01-01 09:00:00'', tx_type = ''transfer''\<rparr>],
                      timestamp = 0, previous_hash = ''0'', nonce = 3, hash = ''0000a''\<rparr>) = replicate (nat 2) CHR ''0'' \<and>
   hash \<lparr>index = 1,
        transactions =
          [\<lparr>tx_from = ''Alice'', tx_to = ''Bob'', amount = 50,
           tx_timestamp = ''2024-01-01 09:00:00'', tx_type = ''transfer''\<rparr>],
        timestamp = 0, previous_hash = ''0'', nonce = 3, hash = ''0000a''\<rparr> = calculate_hash sample_hasher \<lparr>index = 1,
        transactions =
          [\<lparr>tx_from = ''Alice'', tx_to = ''Bob'', amount = 50,
           tx_timestamp = ''2024-01-01 09:00:00'', tx_type = ''transfer''\<rparr>],
        timestamp = 0, previous_hash = ''0'', nonce = 3, hash = ''0000a''\<rparr> \<and>
   hash \<lparr>index = 1,
        transactions =
          [\<lparr>tx_from = ''Alice'', tx_to = ''Bob'', amount = 50,
           tx_timestamp = ''2024-01-01 09:00:00'', tx_type = ''transfer''\<rparr>],
        timestamp = 0, previous_hash = ''0'', nonce = 3, hash = ''0000a''\<rparr> =
     sample_hasher 1
       [\<lparr>tx_from = ''Alice'', tx_to = ''Bob'', amount = 50,
       tx_timestamp = ''2024-01-01 09:00:00'', tx_type = ''transfer''\<rparr>] 0 ''0''
       (nonce \<lparr>index = 1,
              transactions =
                [\<lparr>tx_from = ''Alice'', tx_to = ''Bob'', amount = 50,
                 tx_timestamp = ''2024-01-01 09:00:00'', tx_type = ''transfer''\<rparr>],
              timestamp = 0, previous_hash = ''0'', nonce = 3, hash = ''0000a''\<rparr>) \<and>
   0 \<le> nonce \<lparr>index = 1,
                 transactions =
                   [\<lparr>tx_from = ''Alice'', tx_to = ''Bob'', amount = 50,
                    tx_timestamp = ''2024-01-01 09:00:00'', tx_type = ''transfer''\<rparr>],
                 timestamp = 0, previous_hash = ''0'', nonce = 3, hash = ''0000a''\<rparr> \<and>
   \<lparr>index = 1,
   transactions =
     [\<lparr>tx_from = ''Alice'', tx_to = ''Bob'', amount = 50,
      tx_timestamp = ''2024-01-01 09:00:00'', tx_type = ''transfer''\<rparr>],
   timestamp = 0, previous_hash = ''0'', nonce = 3, hash = ''0000a''\<rparr> =
     Block sample_hasher 1
       [\<lparr>tx_from = ''Alice'', tx_to = ''Bob'', amount = 50,
       tx_timestamp = ''2024-01-01 09:00:00'', tx_type = ''transfer''\<rparr>] 0 ''0''
       (nonce \<lparr>index = 1,
              transactions =
                [\<lparr>tx_from = ''Alice'', tx_to = ''Bob'', amount = 50,
                 tx_timestamp = ''2024-01-01 09:00:00'', tx_type = ''transfer''\<rparr>],
              timestamp = 0, previous_hash = ''0'', nonce = 3, hash = ''0000a''\<rparr>)"
proof -
  let ?txs = "[\<lparr>tx_from = ''Alice'', tx_to = ''Bob'', amount = 50,
              tx_timestamp = ''2024-01-01 09:00:00'', tx_type = ''transfer''\<rparr>]"
  let ?b = "\<lparr>index = 1, transactions = ?txs, timestamp = 0, previous_hash = ''0'', nonce = 3,
             hash = ''0000a''\<rparr>"
  have run: "mine_block sample_hasher (Block sample_hasher 1 ?txs 0 ''0'' 0) 2 = Some ?b"
    by (simp add: run_simps)
  have d: "(0::int) \<le> 2" by simp
  from run d mine_block_seals [OF run d] show ?thesis by blast
qed

text \<open>
  C9. For a block constructed with initial nonce \<open>n0\<close> and any difficulty \<open>d\<close>: if the digest
  of the block's fields with some nonce \<open>n \<ge> n0\<close> meets the target, then \<open>mine_block\<close>
  returns, and the block it leaves is the same block with the smallest such nonce \<open>m\<close> and
  the digest for it; no nonce from \<open>n0\<close> up to \<open>m\<close> meets the target, and \<open>m = n0\<close> when
  the digest at \<open>n0\<close> already does. The target is the code's own test
  \<open>hash[:d] == "0" * d\<close>, which for \<open>d \<ge> 0\<close> says that the digest starts with \<open>d\<close> zeros
  (\<open>meets_target_nonneg\<close>).
\<close>

theorem mine_block_least_nonce:
  assumes "n0 \<le> n" and "meets_target d (H i txs ts prev n)"
  shows "\<exists>m. mine_block H (Block H i txs ts prev n0) d = Some (Block H i txs ts prev m) \<and>
           n0 \<le> m \<and> m \<le> n \<and> meets_target d (H i txs ts prev m) \<and>
           (\<forall>l. n0 \<le> l \<and> l < m \<longrightarrow> \<not> meets_target d (H i txs ts prev l)) \<and>
           (meets_target d (H i txs ts prev n0) \<longrightarrow> m = n0)"
proof -
  let ?b = "Block H i txs ts prev n0"
  have "hash ?b = calculate_hash H ?b" by (simp add: Block_fields)
  moreover have "nonce ?b \<le> n" using assms(1) by (simp add: Block_fields)
  moreover have "meets_target d (calculate_hash H (?b\<lparr>nonce := n\<rparr>))"
    using assms(2) by (simp add: Block_with_nonce)
  ultimately obtain m where m: "nonce ?b \<le> m" "m \<le> n"
      "mine_block H ?b d = Some (?b\<lparr>nonce := m, hash := calculate_hash H (?b\<lparr>nonce := m\<rparr>)\<rparr>)"
      "meets_target d (calculate_hash H (?b\<lparr>nonce := m\<rparr>))"
      "\<forall>l. nonce ?b \<le> l \<and> l < m \<longrightarrow> \<not> meets_target d (calculate_hash H (?b\<lparr>nonce := l\<rparr>))"
    using mine_block_least [of ?b H n d] by blast
  have first: "m = n0" if "meets_target d (H i txs ts prev n0)"
  proof (rule ccontr)
    assume "m \<noteq> n0"
    with m(1) have "n0 < m" by (simp add: Block_fields)
    with m(5) that show False by (simp add: Block_fields Block_with_nonce)
  qed
  show ?thesis
  proof (intro exI [of _ m] conjI)
    show "mine_block H ?b d = Some (Block H i txs ts prev m)"
      using m(3) by (simp only: Block_mined)
    show "n0 \<le> m" using m(1) by (simp add: Block_fields)
    show "m \<le> n" by (rule m(2))
    show "meets_target d (H i txs ts prev m)" using m(4) by (simp add: Block_with_nonce)
    show "\<forall>l. n0 \<le> l \<and> l < m \<longrightarrow> \<not> meets_target d (H i txs ts prev l)"
      using m(5) by (simp add: Block_fields Block_with_nonce)
    show "meets_target d (H i txs ts prev n0) \<longrightarrow> m = n0" using first by blast
  qed
qed

theorem mine_block_least_nonce_witness:
  "(0::int) \<le> 5 \<and> meets_target 2 (sample_hasher 7 [] 0 ''ab'' 5) \<and>
   (\<exists>m. mine_block sample_hasher (Block sample_hasher 7 [] 0 ''ab'' 0) 2 =
          Some (Block sample_hasher 7 [] 0 ''ab'' m) \<and>
        0 \<le> m \<and> m \<le> 5 \<and> meets_target 2 (sample_hasher 7 [] 0 ''ab'' m) \<and>
        (\<forall>l. 0 \<le> l \<and> l < m \<longrightarrow> \<not> meets_target 2 (sample_hasher 7 [] 0 ''ab'' l)) \<and>
        (meets_target 2 (sample_hasher 7 [] 0 ''ab'' 0) \<longrightarrow> m = 0))"
proof -
  have le: "(0::int) \<le> 5" by simp
  have ok: "meets_target 2 (sample_hasher 7 [] 0 ''ab'' 5)" by (simp add: run_simps)
  from le ok
    mine_block_least_nonce [where H = sample_hasher and ?n0.0 = 0 and n = 5 and d = 2
      and i = 7 and txs = "[]" and ts = 0 and prev = "''ab''"]
  show ?thesis by blast
qed


text \<open>
  C8. \<open>add_transaction\<close> is total and has no error result: for every ledger and transaction
  it puts the transaction at the end of the pending pool, whatever the balances are, and it
  leaves the chain, the difficulty and the mining reward as they were.
\<close>

theorem add_transaction_appends:
  "pending_transactions (add_transaction L tx) = pending_transactions L @ [tx] \<and>
   chain (add_transaction L tx) = chain L \<and>
   difficulty (add_transaction L tx) = difficulty L \<and>
   mining_reward (add_transaction L tx) = mining_reward L"
  by (simp add: add_transaction_def)

text \<open>
  C10. A ledger whose chain is a single block is valid, whatever that block's fields and
  stored digest are and whatever the hasher is: the loop of \<open>is_chain_valid\<close> starts at
  index 1 and never looks at the digest of the block at index 0.
\<close>

theorem is_chain_valid_single_block: "is_chain_valid H (L\<lparr>chain := [g]\<rparr>)"
  by (simp add: is_chain_valid_def valid_from_beyond)

text \<open>
  C2. The claim asks that \<open>is_chain_valid\<close> be true exactly when every block, the genesis
  block included, stores the digest of its fields and every later block names its
  predecessor's digest. The code checks the blocks from index 1 on (\<open>is_chain_valid_iff\<close>).
  Here a transaction was added to the genesis block of a new ledger after it was hashed:
  the stored digest is still the one of the empty block and differs from the recomputed
  one, and \<open>is_chain_valid\<close> accepts the chain.
\<close>

theorem is_chain_valid_misses_genesis:
  "is_chain_valid sample_hasher
     \<lparr>chain = [\<lparr>index = 0,
                transactions = [\<lparr>tx_from = ''SYSTEM'', tx_to = ''Mallory'', amount = 1000,
                                 tx_timestamp = ''2024-01-01 00:00:00'', tx_type = ''transfer''\<rparr>],
                timestamp = 0, previous_hash = ''0'', nonce = 0, hash = ''fff0000''\<rparr>],
      difficulty = 2, pending_transactions = [], mining_reward = 100\<rparr> \<and>
   hash \<lparr>index = 0,
         transactions = [\<lparr>tx_from = ''SYSTEM'', tx_to = ''Mallory'', amount = 1000,
                          tx_timestamp = ''2024-01-01 00:00:00'', tx_type = ''transfer''\<rparr>],
         timestamp = 0, previous_hash = ''0'', nonce = 0, hash = ''fff0000''\<rparr> \<noteq>
   calculate_hash sample_hasher
     \<lparr>index = 0,
      transactions = [\<lparr>tx_from = ''SYSTEM'', tx_to = ''Mallory'', amount = 1000,
                       tx_timestamp = ''2024-01-01 00:00:00'', tx_type = ''transfer''\<rparr>],
      timestamp = 0, previous_hash = ''0'', nonce = 0, hash = ''fff0000''\<rparr> \<and>
   hash (create_genesis_block sample_hasher 0) = ''fff0000''"
  by (simp add: is_chain_valid_def valid_from_beyond calculate_hash_def sample_hasher_def
      create_genesis_block_def Block_def eval_nat_numeral)

text \<open>
  C4. \<open>mine_pending_transactions\<close> returns a block exactly when the chain is not empty and
  some nonce from 0 on gives the new block a digest that meets the target (on an empty chain
  \<open>get_latest_block\<close> raises, and without such a nonce the search does not end). Whenever it
  returns, the chain is the chain before the call followed by the one returned block; the
  index of that block is the length of the chain before the call, its previous hash is the
  stored digest of the block that was last before the call, and its transactions are the
  pending pool before the call, in order, followed by the one reward transaction from
  \<open>SYSTEM\<close> to the given address with the mining reward as amount. After the call the
  pending pool is empty; difficulty and mining reward are as before.
\<close>

theorem mine_pending_transactions_appends:
  "((\<exists>blk L'. mine_pending_transactions H now t L addr = Some (Inr (blk, L'))) \<longleftrightarrow>
      chain L \<noteq> [] \<and>
      (\<exists>n\<ge>0. meets_target (difficulty L)
                (H (int (length (chain L)))
                   (pending_transactions L @ [reward_transaction L addr now]) t
                   (hash (last (chain L))) n))) \<and>
   (\<forall>blk L'. mine_pending_transactions H now t L addr = Some (Inr (blk, L')) \<longrightarrow>
      chain L' = chain L @ [blk] \<and>
      index blk = int (length (chain L)) \<and>
      previous_hash blk = hash (last (chain L)) \<and>
      transactions blk =
        pending_transactions L @
          [\<lparr>tx_from = ''SYSTEM'', tx_to = addr, amount = mining_reward L,
            tx_timestamp = now, tx_type = ''mining_reward''\<rparr>] \<and>
      pending_transactions L' = [] \<and>
      difficulty L' = difficulty L \<and> mining_reward L' = mining_reward L \<and>
      timestamp blk = t \<and> 0 \<le> nonce blk \<and>
      hash blk = calculate_hash H blk \<and> meets_target (difficulty L) (hash blk))"
proof -
  let ?ok = "\<lambda>n. meets_target (difficulty L)
      (H (int (length (chain L))) (pending_transactions L @ [reward_transaction L addr now]) t
         (hash (last (chain L))) n)"
  have fwd: "chain L \<noteq> [] \<and> (\<exists>n\<ge>0. ?ok n)"
    if r: "mine_pending_transactions H now t L addr = Some (Inr (blk, L'))" for blk L'
  proof -
    note f = mine_pending_transactions_block [OF r]
    have "hash blk = H (int (length (chain L)))
        (pending_transactions L @ [reward_transaction L addr now]) t (hash (last (chain L)))
        (nonce blk)"
      using f(1-4,6) by (simp add: calculate_hash_def)
    with f(7) have "?ok (nonce blk)" by metis
    with f(5) mine_pending_transactions_returns(1) [OF r] show ?thesis by blast
  qed
  have bwd: "\<exists>blk L'. mine_pending_transactions H now t L addr = Some (Inr (blk, L'))"
    if "chain L \<noteq> []" "0 \<le> n" "?ok n" for n
    using that mine_pending_transactions_succeeds [of L n H addr now t] by blast
  have post: "chain L' = chain L @ [blk] \<and>
      index blk = int (length (chain L)) \<and>
      previous_hash blk = hash (last (chain L)) \<and>
      transactions blk =
        pending_transactions L @
          [\<lparr>tx_from = ''SYSTEM'', tx_to = addr, amount = mining_reward L,
            tx_timestamp = now, tx_type = ''mining_reward''\<rparr>] \<and>
      pending_transactions L' = [] \<and>
      difficulty L' = difficulty L \<and> mining_reward L' = mining_reward L \<and>
      timestamp blk = t \<and> 0 \<le> nonce blk \<and>
      hash blk = calculate_hash H blk \<and> meets_target (difficulty L) (hash blk)"
    if r: "mine_pending_transactions H now t L addr = Some (Inr (blk, L'))" for blk L'
  proof -
    note f = mine_pending_transactions_block [OF r]
    have L': "L' = L\<lparr>chain := chain L @ [blk], pending_transactions := []\<rparr>"
      using r by (rule mine_pending_transactions_returns)
    have "chain L' = chain L @ [blk]" "pending_transactions L' = []"
      "difficulty L' = difficulty L" "mining_reward L' = mining_reward L"
      using L' by simp_all
    moreover have "transactions blk =
          pending_transactions L @
            [\<lparr>tx_from = ''SYSTEM'', tx_to = addr, amount = mining_reward L,
              tx_timestamp = now, tx_type = ''mining_reward''\<rparr>]"
      using f(2) by (simp add: reward_transaction_def)
    moreover note f(1) f(3) f(4) f(5) f(6) f(7)
    ultimately show ?thesis by blast
  qed
  have returns: "(\<exists>blk L'. mine_pending_transactions H now t L addr = Some (Inr (blk, L'))) \<longleftrightarrow>
      chain L \<noteq> [] \<and> (\<exists>n\<ge>0. ?ok n)"
    using fwd bwd by blast
  from returns post show ?thesis by blast
qed

theorem mine_pending_transactions_appends_witness:
  "\<exists>blk L'.
     mine_pending_transactions sample_hasher ''2024-01-01 10:00:00'' 1
       (add_transaction (Blockchain sample_hasher 0)
          \<lparr>tx_from = ''Alice'', tx_to = ''Bob'', amount = 50,
           tx_timestamp = ''2024-01-01 09:00:00'', tx_type = ''transfer''\<rparr>)
       ''Alice'' = Some (Inr (blk, L')) \<and>
     chain L' = [create_genesis_block sample_hasher 0, blk] \<and>
     index blk = 1 \<and>
     previous_hash blk = ''fff0000'' \<and>
     transactions blk =
       [\<lparr>tx_from = ''Alice'', tx_to = ''Bob'', amount = 50,
         tx_timestamp = ''2024-01-01 09:00:00'', tx_type = ''transfer''\<rparr>,
        \<lparr>tx_from = ''SYSTEM'', tx_to = ''Alice'', amount = 100,
         tx_timestamp = ''2024-01-01 10:00:00'', tx_type = ''mining_reward''\<rparr>] \<and>
     pending_transactions L' = [] \<and> difficulty L' = 2 \<and> mining_reward L' = 100 \<and>
     timestamp blk = 1 \<and> hash blk = calculate_hash sample_hasher blk"
proof -
  let ?tx = "\<lparr>tx_from = ''Alice'', tx_to = ''Bob'', amount = 50,
               tx_timestamp = ''2024-01-01 09:00:00'', tx_type = ''transfer''\<rparr>"
  let ?L = "add_transaction (Blockchain sample_hasher 0) ?tx"
  note inst = mine_pending_transactions_appends
    [where H = sample_hasher and now = "''2024-01-01 10:00:00''" and t = 1 and L = ?L
       and addr = "''Alice''"]
  have ne: "chain ?L \<noteq> []" by (simp add: add_transaction_def Blockchain_def)
  have "meets_target (difficulty ?L)
          (sample_hasher (int (length (chain ?L)))
             (pending_transactions ?L @ [reward_transaction ?L ''Alice'' ''2024-01-01 10:00:00''])
             1 (hash (last (chain ?L))) 3)"
    by (simp add: add_transaction_def Blockchain_def run_simps)
  then have "\<exists>n\<ge>0. meets_target (difficulty ?L)
          (sample_hasher (int (length (chain ?L)))
             (pending_transactions ?L @ [reward_transaction ?L ''Alice'' ''2024-01-01 10:00:00''])
             1 (hash (last (chain ?L))) n)"
    by (intro exI [of _ 3]) simp
  with ne inst obtain blk L' where
    r: "mine_pending_transactions sample_hasher ''2024-01-01 10:00:00'' 1 ?L ''Alice'' =
          Some (Inr (blk, L'))"
    by blast
  with inst have "chain L' = chain ?L @ [blk] \<and>
      index blk = int (length (chain ?L)) \<and>
      previous_hash blk = hash (last (chain ?L)) \<and>
      transactions blk =
        pending_transactions ?L @
          [\<lparr>tx_from = ''SYSTEM'', tx_to = ''Alice'', amount = mining_reward ?L,
            tx_timestamp = ''2024-01-01 10:00:00'', tx_type = ''mining_reward''\<rparr>] \<and>
      pending_transactions L' = [] \<and>
      difficulty L' = difficulty ?L \<and> mining_reward L' = mining_reward ?L \<and>
      timestamp blk = 1 \<and> hash blk = calculate_hash sample_hasher blk"
    by blast
  then have "chain L' = [create_genesis_block sample_hasher 0, blk] \<and>
     index blk = 1 \<and>
     previous_hash blk = ''fff0000'' \<and>
     transactions blk =
       [?tx,
        \<lparr>tx_from = ''SYSTEM'', tx_to = ''Alice'', amount = 100,
         tx_timestamp = ''2024-01-01 10:00:00'', tx_type = ''mining_reward''\<rparr>] \<and>
     pending_transactions L' = [] \<and> difficulty L' = 2 \<and> mining_reward L' = 100 \<and>
     timestamp blk = 1 \<and> hash blk = calculate_hash sample_hasher blk"
    by (auto simp: add_transaction_def Blockchain_def create_genesis_block_def Block_def
        calculate_hash_def sample_hasher_def eval_nat_numeral)
  with r show ?thesis by blast
qed

text \<open>
  C6. With an empty pending pool \<open>mine_pending_transactions\<close> has no special case: on a
  non-empty chain, if some nonce from 0 on gives the block a digest that meets the target,
  the call returns a block and appends it to the chain, and the transactions of that block
  are exactly one transaction, the mining reward for the given address.
\<close>

theorem mine_pending_transactions_empty_pool:
  assumes "pending_transactions L = []" and "chain L \<noteq> []" and "0 \<le> n"
    and "meets_target (difficulty L)
           (H (int (length (chain L))) [reward_transaction L addr now] t
              (hash (last (chain L))) n)"
  shows "\<exists>blk L'. mine_pending_transactions H now t L addr = Some (Inr (blk, L')) \<and>
           chain L' = chain L @ [blk] \<and>
           transactions blk =
             [\<lparr>tx_from = ''SYSTEM'', tx_to = addr, amount = mining_reward L,
               tx_timestamp = now, tx_type = ''mining_reward''\<rparr>] \<and>
           length (transactions blk) = 1 \<and>
           tx_type (transactions blk ! 0) = ''mining_reward''"
proof -
  have "meets_target (difficulty L)
          (H (int (length (chain L))) (pending_transactions L @ [reward_transaction L addr now]) t
             (hash (last (chain L))) n)"
    using assms(1,4) by simp
  with assms(2,3)
  obtain blk L' where r: "mine_pending_transactions H now t L addr = Some (Inr (blk, L'))"
    using mine_pending_transactions_succeeds [of L n H addr now t] by blast
  have "L' = L\<lparr>chain := chain L @ [blk], pending_transactions := []\<rparr>"
    using r by (rule mine_pending_transactions_returns)
  then have c: "chain L' = chain L @ [blk]" by simp
  have "transactions blk = [reward_transaction L addr now]"
    using mine_pending_transactions_block(2) [OF r] assms(1) by simp
  then have "transactions blk =
             [\<lparr>tx_from = ''SYSTEM'', tx_to = addr, amount = mining_reward L,
               tx_timestamp = now, tx_type = ''mining_reward''\<rparr>] \<and>
           length (transactions blk) = 1 \<and>
           tx_type (transactions blk ! 0) = ''mining_reward''"
    by (simp add: reward_transaction_def)
  with r c show ?thesis by blast
qed

theorem mine_pending_transactions_empty_pool_witness:
  "pending_transactions (Blockchain sample_hasher 0) = [] \<and>
   chain (Blockchain sample_hasher 0) \<noteq> [] \<and> (0::int) \<le> 3 \<and>
   meets_target (difficulty (Blockchain sample_hasher 0))
     (sample_hasher (int (length (chain (Blockchain sample_hasher 0))))
        [reward_transaction (Blockchain sample_hasher 0) ''Alice'' ''2024-01-01 10:00:00''] 1
        (hash (last (chain (Blockchain sample_hasher 0)))) 3) \<and>
   (\<exists>blk L'. mine_pending_transactions sample_hasher ''2024-01-01 10:00:00'' 1
               (Blockchain sample_hasher 0) ''Alice'' = Some (Inr (blk, L')) \<and>
      chain L' = chain (Blockchain sample_hasher 0) @ [blk] \<and>
      transactions blk =
        [\<lparr>tx_from = ''SYSTEM'', tx_to = ''Alice'',
          amount = mining_reward (Blockchain sample_hasher 0),
          tx_timestamp = ''2024-01-01 10:00:00'', tx_type = ''mining_reward''\<rparr>] \<and>
      length (transactions blk) = 1 \<and>
      tx_type (transactions blk ! 0) = ''mining_reward'')"
proof -
  let ?L = "Blockchain sample_hasher 0"
  have p: "pending_transactions ?L = []" by (simp add: Blockchain_def)
  have ne: "chain ?L \<noteq> []" by (simp add: Blockchain_def)
  have n: "(0::int) \<le> 3" by simp
  have ok: "meets_target (difficulty ?L)
          (sample_hasher (int (length (chain ?L)))
             [reward_transaction ?L ''Alice'' ''2024-01-01 10:00:00''] 1
             (hash (last (chain ?L))) 3)"
    by (simp add: Blockchain_def run_simps)
  from p ne n ok
    mine_pending_transactions_empty_pool
      [where H = sample_hasher and L = ?L and addr = "''Alice''"
         and now = "''2024-01-01 10:00:00''" and t = 1 and n = 3]
  show ?thesis by blast
qed

text \<open>
  C5. In every ledger reachable from a new ledger by calls of \<open>add_transaction\<close> and
  \<open>mine_pending_transactions\<close>, every block after the first stores as previous hash the
  stored digest of the block before it. No such call makes the chain of a reachable ledger
  shorter: the chain after the call starts with the chain before it.
\<close>

theorem reachable_chain_linked:
  assumes "reachable H L"
  shows "(\<forall>i. 0 < i \<and> i < length (chain L) \<longrightarrow>
            previous_hash (chain L ! i) = hash (chain L ! (i - 1))) \<and>
         (\<forall>L'. step H L L' \<longrightarrow>
            length (chain L) \<le> length (chain L') \<and>
            take (length (chain L)) (chain L') = chain L)"
  using reachable_linked [OF assms] step_grows by blast

theorem reachable_chain_linked_witness:
  "reachable sample_hasher
     \<lparr>chain =
        [\<lparr>index = 0, transactions = [], timestamp = 0, previous_hash = ''0'', nonce = 0,
          hash = ''fff0000''\<rparr>,
         \<lparr>index = 1,
          transactions =
            [\<lparr>tx_from = ''SYSTEM'', tx_to = ''Alice'', amount = 100,
              tx_timestamp = ''2024-01-01 10:00:00'', tx_type = ''mining_reward''\<rparr>],
          timestamp = 1, previous_hash = ''fff0000'', nonce = 3, hash = ''0000a''\<rparr>],
      difficulty = 2, pending_transactions = [], mining_reward = 100\<rparr> \<and>
   previous_hash
     \<lparr>index = 1,
      transactions =
        [\<lparr>tx_from = ''SYSTEM'', tx_to = ''Alice'', amount = 100,
          tx_timestamp = ''2024-01-01 10:00:00'', tx_type = ''mining_reward''\<rparr>],
      timestamp = 1, previous_hash = ''fff0000'', nonce = 3, hash = ''0000a''\<rparr> =
   hash \<lparr>index = 0, transactions = [], timestamp = 0, previous_hash = ''0'', nonce = 0,
         hash = ''fff0000''\<rparr>"
proof -
  let ?G = "\<lparr>index = 0, transactions = [], timestamp = 0, previous_hash = ''0'', nonce = 0,
             hash = ''fff0000''\<rparr>"
  let ?B = "\<lparr>index = 1,
      transactions =
        [\<lparr>tx_from = ''SYSTEM'', tx_to = ''Alice'', amount = 100,
          tx_timestamp = ''2024-01-01 10:00:00'', tx_type = ''mining_reward''\<rparr>],
      timestamp = 1, previous_hash = ''fff0000'', nonce = 3, hash = ''0000a''\<rparr>"
  let ?L = "\<lparr>chain = [?G, ?B], difficulty = 2, pending_transactions = [], mining_reward = 100\<rparr>"
  have run: "mine_pending_transactions sample_hasher ''2024-01-01 10:00:00'' 1
      (Blockchain sample_hasher 0) ''Alice'' = Some (Inr (?B, ?L))"
    by (simp add: mine_pending_transactions_def get_latest_block_def Blockchain_def
        create_genesis_block_def reward_transaction_def Let_def run_simps)
  have reach: "reachable sample_hasher ?L"
    by (rule reachable_step [OF reachable_fresh step_mine [OF run]])
  from reachable_chain_linked [OF reach]
  have "0 < (1::nat) \<and> 1 < length (chain ?L) \<longrightarrow>
      previous_hash (chain ?L ! 1) = hash (chain ?L ! (1 - 1))"
    by blast
  then have "previous_hash ?B = hash ?G" by simp
  with reach show ?thesis by blast
qed

end
